theory Spec2Isabelle
  imports Main "HOL-Library.Word" "HOL-Library.Multiset"
begin

section \<open>Verified pointers of \<open>scheds/include/scx/common.bpf.h\<close>\<close>

text \<open>
  The header is compiled for the BPF target: \<open>u64\<close> is a 64-bit unsigned integer,
  pointers and \<open>sizeof\<close> values are 64 bits wide, and every arithmetic operation of the
  two macros below is done on \<open>u64\<close>, where it wraps around.
\<close>

type_synonym u64 = "64 word"

subsection \<open>The inline assembly shared by both macros\<close>

text \<open>
  Both macros end in the same assembly template:
  \<^verbatim>\<open>
      if %0 <= %[max] goto +2
      %0 = 0
      goto +1
      %0 += %1
  \<close>
  \<open>%0\<close> is the read-write operand \<open>__addr\<close>, \<open>%1\<close> the operand \<open>__base\<close> and
  \<open>%[max]\<close> the bound. \<open><=\<close> is BPF's unsigned comparison, \<open>goto +k\<close> skips the next
  \<open>k\<close> instructions. \<open>ARRAY_ELEM_PTR\<close> passes the bound in a register (constraint
  \<open>"r"\<close>), and the jump compares two registers. \<open>MEMBER_VPTR\<close> passes it as a constant
  (constraint \<open>"i"\<close>), and the jump carries it as its immediate: a field of 32 bits, which
  the machine extends with its sign to 64 bits before it compares. The instructions are
  modelled as data and run by \<open>exec\<close>; a jump can only go forward, so a program is run by
  recursion on the instructions left.
\<close>

datatype asm_operand = Op0 | Op1 | OpMax

datatype bpf_insn =
    JLE asm_operand asm_operand nat  \<comment> \<open>\<open>if a <= b goto +k\<close>\<close>
  | JLE_IMM asm_operand "32 word" nat  \<comment> \<open>\<open>if a <= imm goto +k\<close>\<close>
  | MOV asm_operand u64              \<comment> \<open>\<open>a = imm\<close>\<close>
  | JA nat                           \<comment> \<open>\<open>goto +k\<close>\<close>
  | ADD asm_operand asm_operand      \<comment> \<open>\<open>a += b\<close>\<close>

type_synonym asm_state = "asm_operand \<Rightarrow> u64"

function exec :: "bpf_insn list \<Rightarrow> asm_state \<Rightarrow> asm_state" where
  "exec [] s = s"
| "exec (JLE a b k # rest) s = (if s a \<le> s b then exec (drop k rest) s else exec rest s)"
| "exec (JLE_IMM a imm k # rest) s =
     (if s a \<le> scast imm then exec (drop k rest) s else exec rest s)"
| "exec (MOV a v # rest) s = exec rest (s(a := v))"
| "exec (JA k # rest) s = exec (drop k rest) s"
| "exec (ADD a b # rest) s = exec rest (s(a := s a + s b))"
  by pat_completeness auto
termination
  by (relation "measure (\<lambda>(prog, s). length prog)") auto

definition vptr_asm :: "bpf_insn list" where
  "vptr_asm = [JLE Op0 OpMax 2, MOV Op0 0, JA 1, ADD Op0 Op1]"

definition asm_operands :: "u64 \<Rightarrow> u64 \<Rightarrow> u64 \<Rightarrow> asm_state" where
  "asm_operands addr base max_off =
     (\<lambda>op. case op of Op0 \<Rightarrow> addr | Op1 \<Rightarrow> base | OpMax \<Rightarrow> max_off)"



subsection \<open>\<open>MEMBER_VPTR\<close>\<close>






subsection \<open>\<open>ARRAY_ELEM_PTR\<close>\<close>

text \<open>
  \<^verbatim>\<open>
  #define ARRAY_ELEM_PTR(arr, i, n) (typeof(arr[i]) *)({
          u64 __base = (u64)arr;
          u64 __addr = (u64)&(arr[i]) - __base;
          asm volatile ( ... : "+r"(__addr)
                             : "r"(__base),
                               [max]"r"(sizeof(arr[0]) * ((n) - 1)));
          __addr;
  })
  \<close>
  The inputs are the array's address, the index, the element count and \<open>sizeof(arr[0])\<close>.
  \<open>i\<close> and \<open>n\<close> are the values of the C expressions as 64-bit integers: \<open>&(arr[i])\<close> is
  \<open>arr\<close> plus \<open>i\<close> elements, and \<open>sizeof(arr[0]) * ((n) - 1)\<close> is a product of type
  \<open>size_t\<close>. For \<open>n \<ge> 1\<close> the value of \<open>(n) - 1\<close> is the same whether \<open>n\<close> is declared with
  32 or 64 bits, signed or unsigned; for \<open>n = 0\<close> an \<open>int\<close> or \<open>u64\<close> count gives
  \<open>2 ^ 64 - 1\<close>, the value of the model (a \<open>u32\<close> count gives \<open>2 ^ 32 - 1\<close>).
\<close>

definition elem_addr :: "u64 \<Rightarrow> u64 \<Rightarrow> u64 \<Rightarrow> u64" where
  \<comment> \<open>\<open>(u64)&(arr[i])\<close>\<close>
  "elem_addr arr i sizeof_elem = arr + sizeof_elem * i"

definition ARRAY_ELEM_PTR :: "u64 \<Rightarrow> u64 \<Rightarrow> u64 \<Rightarrow> u64 \<Rightarrow> u64" where
  "ARRAY_ELEM_PTR arr i n sizeof_elem =
     (let base = arr;
          addr = elem_addr arr i sizeof_elem - base;
          s = exec vptr_asm (asm_operands addr base (sizeof_elem * (n - 1)))
      in s Op0)"

definition array_in_memory :: "u64 \<Rightarrow> u64 \<Rightarrow> u64 \<Rightarrow> bool" where
  \<comment> \<open>the \<open>n\<close> elements of \<open>sizeof_elem\<close> bytes at \<open>arr\<close> lie in the 64-bit address space\<close>
  "array_in_memory arr n sizeof_elem \<longleftrightarrow> unat arr + unat sizeof_elem * unat n \<le> 2 ^ 64"

section \<open>Dispatch queues in virtual-time order\<close>

text \<open>
  The header declares the dispatch-queue kfuncs and leaves their bodies to the kernel:
  \<^verbatim>\<open>
  bool scx_bpf_consume(u64 dsq_id) __ksym;
  void scx_bpf_dispatch_vtime(struct task_struct *p, u64 dsq_id, u64 slice, u64 vtime,
                              u64 enq_flags) __ksym;
  \<close>
  The definitions of this section stand for those bodies. They follow the words of the
  specification (its sections 3, 4.1 and 4.6) and keep the header's 64-bit types for the
  queue id, the slice, the flags and the virtual time.
\<close>

text \<open>Modelled from the spec: the task handle, an opaque reference to a task (the
  header's \<open>struct task_struct *\<close>, declared in the missing \<open>vmlinux.h\<close>).\<close>

type_synonym task_handle = nat

text \<open>Modelled from the spec: a queued task, "referencing a TaskHandle plus a requested
  time-slice length, an enqueue-flags bitset, and (if vtime mode) a virtual-time key". The
  kernel's entry type is missing from the sources.\<close>

record queued_task =
  qt_task :: task_handle
  qt_slice :: u64
  qt_flags :: u64
  qt_vtime :: u64

text \<open>Modelled from the spec: "ordering mode is FIFO or virtual-time".\<close>

datatype ordering_mode = FIFO | VTIME

text \<open>Modelled from the spec: a dispatch queue, which has an ordering mode and "holds zero
  or more QueuedTask entries"; the head of the queue is the head of the list. The kernel's
  queue type is missing from the sources.\<close>

record dispatch_queue =
  dq_mode :: ordering_mode
  dq_entries :: "queued_task list"

text \<open>Modelled from the spec: the state the operations work on, which is missing from the
  sources: the queues by their 64-bit id, the tasks that \<open>consume\<close> has moved to the
  invoking CPU's local run slot (oldest first), and whether \<open>report_fatal\<close> has been
  invoked.\<close>

record dsq_manager =
  queues :: "u64 \<rightharpoonup> dispatch_queue"
  local_slot :: "queued_task list"
  fatal :: bool

text \<open>Modelled from the spec: the failure of a queue operation, "operation against an
  unknown queue id, or vtime operation against a FIFO-mode queue".\<close>

datatype queue_error = QueueError

text \<open>Modelled from the spec: the insertion of \<open>enqueue_vtime\<close>, whose kernel code is
  missing: "inserts maintaining sorted order by \<open>vtime_key\<close>, ties broken by insertion
  order". The new entry goes in front of the first entry with a larger key, so behind the
  entries of its own key that came before it.\<close>

fun insert_vtime :: "queued_task \<Rightarrow> queued_task list \<Rightarrow> queued_task list" where
  "insert_vtime e [] = [e]"
| "insert_vtime e (x # xs) =
     (if qt_vtime x \<le> qt_vtime e then x # insert_vtime e xs else e # x # xs)"

text \<open>Modelled from the spec: \<open>enqueue_vtime\<close> (the body of \<open>scx_bpf_dispatch_vtime\<close> is
  missing). It "requires the queue be in vtime mode", fails on an unknown id, and after
  \<open>report_fatal\<close> is a no-op returning failure.\<close>

definition enqueue_vtime ::
  "dsq_manager \<Rightarrow> u64 \<Rightarrow> task_handle \<Rightarrow> u64 \<Rightarrow> u64 \<Rightarrow> u64 \<Rightarrow> queue_error + dsq_manager" where
  "enqueue_vtime s dsq_id task slice_len vtime_key flags =
     (if fatal s then Inl QueueError
      else case queues s dsq_id of
        None \<Rightarrow> Inl QueueError
      | Some q \<Rightarrow>
          (case dq_mode q of
             FIFO \<Rightarrow> Inl QueueError
           | VTIME \<Rightarrow>
               Inr (s\<lparr>queues := (queues s)(dsq_id \<mapsto>
                      q\<lparr>dq_entries :=
                          insert_vtime \<lparr>qt_task = task, qt_slice = slice_len, qt_flags = flags,
                                        qt_vtime = vtime_key\<rparr> (dq_entries q)\<rparr>)\<rparr>)))"

text \<open>Modelled from the spec: \<open>consume\<close> (the body of \<open>scx_bpf_consume\<close> is missing):
  "removes the head element and transfers it to the invoking CPU's local run slot; returns
  whether an element was moved". After \<open>report_fatal\<close> it is a no-op returning failure.\<close>

definition consume :: "dsq_manager \<Rightarrow> u64 \<Rightarrow> bool \<times> dsq_manager" where
  "consume s dsq_id =
     (if fatal s then (False, s)
      else case queues s dsq_id of
        None \<Rightarrow> (False, s)
      | Some q \<Rightarrow>
          (case dq_entries q of
             [] \<Rightarrow> (False, s)
           | e # es \<Rightarrow>
               (True, s\<lparr>queues := (queues s)(dsq_id \<mapsto> q\<lparr>dq_entries := es\<rparr>),
                        local_slot := local_slot s @ [e]\<rparr>)))"

subsection \<open>Runs of the two operations\<close>

text \<open>The tasks of a list are enqueued one after the other; the first failure ends the run.\<close>

fun enqueue_vtime_all ::
  "dsq_manager \<Rightarrow> u64 \<Rightarrow> queued_task list \<Rightarrow> queue_error + dsq_manager" where
  "enqueue_vtime_all s dsq_id [] = Inr s"
| "enqueue_vtime_all s dsq_id (e # es) =
     (case enqueue_vtime s dsq_id (qt_task e) (qt_slice e) (qt_vtime e) (qt_flags e) of
        Inl err \<Rightarrow> Inl err
      | Inr s' \<Rightarrow> enqueue_vtime_all s' dsq_id es)"

text \<open>\<open>consume\<close> called \<open>k\<close> times in a row: what each call returned, and the last state.\<close>

fun consume_repeat :: "nat \<Rightarrow> dsq_manager \<Rightarrow> u64 \<Rightarrow> bool list \<times> dsq_manager" where
  "consume_repeat 0 s dsq_id = ([], s)"
| "consume_repeat (Suc k) s dsq_id =
     (let (moved, s') = consume s dsq_id;
          (rest, s'') = consume_repeat k s' dsq_id
      in (moved # rest, s''))"

text \<open>Any interleaving of the two operations, on any queues; a failed enqueue leaves the
  state as it was.\<close>

datatype dsq_op =
    EnqueueVtime u64 task_handle u64 u64 u64
  | Consume u64

fun apply_op :: "dsq_op \<Rightarrow> dsq_manager \<Rightarrow> dsq_manager" where
  "apply_op (EnqueueVtime dsq_id task slice_len vtime_key flags) s =
     (case enqueue_vtime s dsq_id task slice_len vtime_key flags of
        Inl err \<Rightarrow> s
      | Inr s' \<Rightarrow> s')"
| "apply_op (Consume dsq_id) s = snd (consume s dsq_id)"

text \<open>The invariant of a queue's contents: in vtime mode the keys do not decrease from the
  head to the tail.\<close>

definition vtime_ordered :: "dsq_manager \<Rightarrow> u64 \<Rightarrow> bool" where
  "vtime_ordered s dsq_id =
     (case queues s dsq_id of
        None \<Rightarrow> True
      | Some q \<Rightarrow>
          (case dq_mode q of
             FIFO \<Rightarrow> True
           | VTIME \<Rightarrow> sorted (map qt_vtime (dq_entries q))))"

definition insert_all :: "queued_task list \<Rightarrow> queued_task list \<Rightarrow> queued_task list" where
  \<comment> \<open>the entries \<open>es\<close> inserted one after the other into the queue contents \<open>xs\<close>\<close>
  "insert_all xs es = foldl (\<lambda>acc e. insert_vtime e acc) xs es"

section \<open>Properties of the verified pointers\<close>

subsection \<open>The assembly is a bounds check\<close>

lemma exec_vptr_asm:
  "exec vptr_asm (asm_operands addr base max_off) Op0 =
     (if addr \<le> max_off then addr + base else 0)"
  by (simp add: vptr_asm_def asm_operands_def)





lemma ARRAY_ELEM_PTR_eq:
  "ARRAY_ELEM_PTR arr i n sizeof_elem =
     (if elem_addr arr i sizeof_elem - arr \<le> sizeof_elem * (n - 1)
      then elem_addr arr i sizeof_elem else 0)"
  by (simp add: ARRAY_ELEM_PTR_def exec_vptr_asm)

lemma elem_offset: "elem_addr arr i sizeof_elem - arr = sizeof_elem * i"
  by (simp add: elem_addr_def)

subsection \<open>\<open>MEMBER_VPTR\<close> stays inside the base object\<close>





subsection \<open>\<open>ARRAY_ELEM_PTR\<close> checks the index against the element count\<close>

lemma bound_no_wrap:
  fixes n sz :: u64
  assumes n1: "1 \<le> n" and fit: "unat sz * unat n \<le> 2 ^ 64"
  shows "unat (sz * (n - 1)) = unat sz * (unat n - 1)"
proof -
  have n: "unat (n - 1) = unat n - 1" using n1 by (simp add: unat_sub)
  have pos: "0 < unat n" using n1 by (simp add: word_le_nat_alt)
  have "unat sz * (unat n - 1) < 2 ^ 64"
  proof (cases "unat sz = 0")
    case True
    then show ?thesis by simp
  next
    case False
    then have "unat sz * (unat n - 1) < unat sz * unat n" using pos by simp
    then show ?thesis using fit by linarith
  qed
  then show ?thesis using n by (simp add: unat_word_ariths)
qed

lemma index_in_range:
  fixes i n sz :: u64
  assumes n1: "1 \<le> n" and fit: "unat sz * unat n \<le> 2 ^ 64" and i: "i \<le> n - 1"
  shows "sz * i \<le> sz * (n - 1)"
proof -
  have n: "unat (n - 1) = unat n - 1" using n1 by (simp add: unat_sub)
  have le: "unat i \<le> unat n - 1" using i n by (simp add: word_le_nat_alt)
  have b: "unat (sz * (n - 1)) = unat sz * (unat n - 1)" using bound_no_wrap [OF n1 fit] .
  have "unat sz * unat i \<le> unat sz * (unat n - 1)" using le by (rule mult_le_mono2)
  moreover have "unat (sz * i) \<le> unat sz * unat i"
    by (simp add: unat_word_ariths)
  ultimately have "unat (sz * i) \<le> unat (sz * (n - 1))" using b by linarith
  then show ?thesis by (simp only: word_le_nat_alt)
qed

lemma index_out_of_range:
  fixes i n sz :: u64
  assumes n1: "1 \<le> n" and fit: "unat sz * unat n \<le> 2 ^ 64" and i: "n - 1 < i"
    and sz: "0 < sz" and nowrap: "unat sz * unat i < 2 ^ 64"
  shows "sz * (n - 1) < sz * i"
proof -
  have n: "unat (n - 1) = unat n - 1" using n1 by (simp add: unat_sub)
  have lt: "unat n - 1 < unat i" using i n by (simp add: word_less_nat_alt)
  have b: "unat (sz * (n - 1)) = unat sz * (unat n - 1)" using bound_no_wrap [OF n1 fit] .
  have s: "0 < unat sz" using sz by (simp add: word_less_nat_alt)
  have "unat (sz * i) = unat sz * unat i" using nowrap by (simp add: unat_word_ariths)
  moreover have "unat sz * (unat n - 1) < unat sz * unat i" using lt s by simp
  ultimately have "unat (sz * (n - 1)) < unat (sz * i)" using b by linarith
  then show ?thesis by (simp only: word_less_nat_alt)
qed

text \<open>
  Claim C10. For an array of \<open>n \<ge> 1\<close> elements (one that lies in the address space),
  \<open>ARRAY_ELEM_PTR(arr, i, n)\<close> is the address of \<open>arr[i]\<close> when \<open>i \<le> n - 1\<close>, and \<open>NULL\<close>
  when the byte offset of \<open>arr[i]\<close> exceeds \<open>sizeof(arr[0]) * (n - 1)\<close>; this is the case
  for every index above \<open>n - 1\<close> whose byte offset does not wrap around. The bound is a
  \<open>u64\<close> product: for \<open>n = 0\<close> (a count of type \<open>int\<close> or \<open>u64\<close>) it wraps to
  \<open>2 ^ 64 - sizeof(arr[0])\<close>, and the macro then
  returns the address of \<open>arr[i]\<close> for every offset up to that bound, so the guarantee
  needs \<open>n \<ge> 1\<close>.
\<close>

theorem ARRAY_ELEM_PTR_checked:
  "(1 \<le> n \<and> array_in_memory arr n sizeof_elem \<longrightarrow>
      (i \<le> n - 1 \<longrightarrow> ARRAY_ELEM_PTR arr i n sizeof_elem = elem_addr arr i sizeof_elem) \<and>
      (sizeof_elem * (n - 1) < elem_addr arr i sizeof_elem - arr \<longrightarrow>
         ARRAY_ELEM_PTR arr i n sizeof_elem = 0) \<and>
      (n - 1 < i \<and> 0 < sizeof_elem \<and> unat sizeof_elem * unat i < 2 ^ 64 \<longrightarrow>
         ARRAY_ELEM_PTR arr i n sizeof_elem = 0))
   \<and> (sizeof_elem * i \<le> - sizeof_elem \<longrightarrow>
         ARRAY_ELEM_PTR arr i 0 sizeof_elem = elem_addr arr i sizeof_elem)"
proof -
  have in_range: "ARRAY_ELEM_PTR arr i n sizeof_elem = elem_addr arr i sizeof_elem"
    if "1 \<le> n" and "array_in_memory arr n sizeof_elem" and "i \<le> n - 1"
  proof -
    have "unat sizeof_elem * unat n \<le> 2 ^ 64"
      using that(2) by (simp add: array_in_memory_def)
    then have "sizeof_elem * i \<le> sizeof_elem * (n - 1)"
      using that(1,3) by (intro index_in_range)
    then show ?thesis by (simp add: ARRAY_ELEM_PTR_eq elem_offset)
  qed
  have offset_above: "ARRAY_ELEM_PTR arr i n sizeof_elem = 0"
    if "sizeof_elem * (n - 1) < elem_addr arr i sizeof_elem - arr"
  proof -
    have "\<not> elem_addr arr i sizeof_elem - arr \<le> sizeof_elem * (n - 1)"
      using that by (simp add: not_le)
    then show ?thesis by (simp add: ARRAY_ELEM_PTR_eq)
  qed
  have index_above: "ARRAY_ELEM_PTR arr i n sizeof_elem = 0"
    if "1 \<le> n" and "array_in_memory arr n sizeof_elem" and "n - 1 < i"
      and "0 < sizeof_elem" and "unat sizeof_elem * unat i < 2 ^ 64"
  proof -
    have "unat sizeof_elem * unat n \<le> 2 ^ 64"
      using that(2) by (simp add: array_in_memory_def)
    then have "sizeof_elem * (n - 1) < sizeof_elem * i"
      using that(1,3,4,5) by (intro index_out_of_range)
    then show ?thesis using offset_above by (simp add: elem_offset)
  qed
  have empty_array: "ARRAY_ELEM_PTR arr i 0 sizeof_elem = elem_addr arr i sizeof_elem"
    if "sizeof_elem * i \<le> - sizeof_elem"
    using that by (simp add: ARRAY_ELEM_PTR_eq elem_offset)
  show ?thesis
    using in_range offset_above index_above empty_array by blast
qed

theorem ARRAY_ELEM_PTR_checked_witness:
  "(1::u64) \<le> 4 \<and> array_in_memory 4096 4 8
   \<and> ARRAY_ELEM_PTR 4096 3 4 8 = elem_addr 4096 3 8 \<and> elem_addr 4096 3 8 = 4120
   \<and> ARRAY_ELEM_PTR 4096 4 4 8 = 0
   \<and> ARRAY_ELEM_PTR 4096 5 0 8 = 4136"
  using ARRAY_ELEM_PTR_checked [of 4 4096 8 3] ARRAY_ELEM_PTR_checked [of 4 4096 8 4]
    ARRAY_ELEM_PTR_checked [of 4 4096 8 5]
  by (simp add: array_in_memory_def elem_addr_def)

section \<open>Properties of the virtual-time queues\<close>

subsection \<open>One insertion\<close>

lemma mset_insert_vtime: "mset (insert_vtime e xs) = add_mset e (mset xs)"
  by (induction xs) auto

lemma set_insert_vtime: "set (insert_vtime e xs) = insert e (set xs)"
  by (induction xs) auto

lemma sorted_insert_vtime:
  "sorted (map qt_vtime xs) \<Longrightarrow> sorted (map qt_vtime (insert_vtime e xs))"
  by (induction xs) (auto simp: set_insert_vtime)

lemma filter_insert_vtime_other:
  "qt_vtime e \<noteq> k \<Longrightarrow>
     filter (\<lambda>x. qt_vtime x = k) (insert_vtime e xs) = filter (\<lambda>x. qt_vtime x = k) xs"
  by (induction xs) auto

text \<open>Among the entries of its own key, the new entry is the last.\<close>

lemma filter_insert_vtime_same:
  "sorted (map qt_vtime xs) \<Longrightarrow>
     filter (\<lambda>x. qt_vtime x = qt_vtime e) (insert_vtime e xs)
       = filter (\<lambda>x. qt_vtime x = qt_vtime e) xs @ [e]"
proof (induction xs)
  case Nil
  then show ?case by simp
next
  case (Cons x xs)
  show ?case
  proof (cases "qt_vtime x \<le> qt_vtime e")
    case True
    then show ?thesis using Cons by simp
  next
    case False
    then have "\<forall>y \<in> set (x # xs). qt_vtime y \<noteq> qt_vtime e"
      using Cons.prems by auto
    then have "filter (\<lambda>x. qt_vtime x = qt_vtime e) (x # xs) = []"
      by (auto simp: filter_empty_conv)
    then show ?thesis using False by simp
  qed
qed

lemma filter_insert_vtime:
  "sorted (map qt_vtime xs) \<Longrightarrow>
     filter (\<lambda>x. qt_vtime x = k) (insert_vtime e xs)
       = filter (\<lambda>x. qt_vtime x = k) (xs @ [e])"
  by (cases "qt_vtime e = k") (auto simp: filter_insert_vtime_other filter_insert_vtime_same)

subsection \<open>Insertions in a row\<close>

lemma insert_all_Nil: "insert_all xs [] = xs"
  by (simp add: insert_all_def)

lemma insert_all_Cons: "insert_all xs (e # es) = insert_all (insert_vtime e xs) es"
  by (simp add: insert_all_def)

lemma sorted_insert_all:
  "sorted (map qt_vtime xs) \<Longrightarrow> sorted (map qt_vtime (insert_all xs es))"
  by (induction es arbitrary: xs)
    (simp_all add: insert_all_Nil insert_all_Cons sorted_insert_vtime)

lemma mset_insert_all: "mset (insert_all xs es) = mset xs + mset es"
  by (induction es arbitrary: xs)
    (simp_all add: insert_all_Nil insert_all_Cons mset_insert_vtime)

lemma filter_insert_all:
  "sorted (map qt_vtime xs) \<Longrightarrow>
     filter (\<lambda>x. qt_vtime x = k) (insert_all xs es) = filter (\<lambda>x. qt_vtime x = k) (xs @ es)"
proof (induction es arbitrary: xs)
  case Nil
  then show ?case by (simp add: insert_all_Nil)
next
  case (Cons e es)
  have "filter (\<lambda>x. qt_vtime x = k) (insert_all (insert_vtime e xs) es)
          = filter (\<lambda>x. qt_vtime x = k) (insert_vtime e xs @ es)"
    using Cons.prems by (intro Cons.IH sorted_insert_vtime)
  then show ?case
    using Cons.prems by (simp add: insert_all_Cons filter_insert_vtime)
qed

subsection \<open>The operations on the state\<close>

lemma enqueue_vtime_all_Inr:
  assumes "\<not> fatal s" and "queues s dsq_id = Some q" and "dq_mode q = VTIME"
  shows "enqueue_vtime_all s dsq_id es =
           Inr (s\<lparr>queues := (queues s)(dsq_id \<mapsto>
                  q\<lparr>dq_entries := insert_all (dq_entries q) es\<rparr>)\<rparr>)"
  using assms
proof (induction es arbitrary: s q)
  case Nil
  then have "(queues s)(dsq_id \<mapsto> q) = queues s" by (simp add: fun_upd_idem)
  then show ?case by (simp add: insert_all_Nil)
next
  case (Cons e es)
  let ?q' = "q\<lparr>dq_entries := insert_vtime e (dq_entries q)\<rparr>"
  let ?s' = "s\<lparr>queues := (queues s)(dsq_id \<mapsto> ?q')\<rparr>"
  have e: "\<lparr>qt_task = qt_task e, qt_slice = qt_slice e, qt_flags = qt_flags e,
             qt_vtime = qt_vtime e\<rparr> = e"
    by (cases e) simp
  have step: "enqueue_vtime s dsq_id (qt_task e) (qt_slice e) (qt_vtime e) (qt_flags e) = Inr ?s'"
    using Cons.prems by (simp add: enqueue_vtime_def e)
  have "enqueue_vtime_all ?s' dsq_id es =
          Inr (?s'\<lparr>queues := (queues ?s')(dsq_id \<mapsto>
                 ?q'\<lparr>dq_entries := insert_all (dq_entries ?q') es\<rparr>)\<rparr>)"
    using Cons.prems by (intro Cons.IH) simp_all
  then have ih: "enqueue_vtime_all ?s' dsq_id es =
          Inr (s\<lparr>queues := (queues s)(dsq_id \<mapsto>
                 q\<lparr>dq_entries := insert_all (dq_entries q) (e # es)\<rparr>)\<rparr>)"
    by (simp add: insert_all_Cons)
  show ?case unfolding enqueue_vtime_all.simps step sum.case ih ..
qed

lemma consume_repeat_all:
  assumes "\<not> fatal s" and "queues s dsq_id = Some q" and "dq_entries q = xs"
  shows "consume_repeat (length xs) s dsq_id =
           (replicate (length xs) True,
            s\<lparr>queues := (queues s)(dsq_id \<mapsto> q\<lparr>dq_entries := []\<rparr>),
              local_slot := local_slot s @ xs\<rparr>)"
  using assms
proof (induction xs arbitrary: s q)
  case Nil
  then have "q\<lparr>dq_entries := []\<rparr> = q" by simp
  moreover have "(queues s)(dsq_id \<mapsto> q) = queues s" using Nil by (simp add: fun_upd_idem)
  ultimately show ?case by simp
next
  case (Cons x xs)
  let ?q' = "q\<lparr>dq_entries := xs\<rparr>"
  let ?s' = "s\<lparr>queues := (queues s)(dsq_id \<mapsto> ?q'), local_slot := local_slot s @ [x]\<rparr>"
  have step: "consume s dsq_id = (True, ?s')"
    using Cons.prems by (simp add: consume_def)
  have "consume_repeat (length xs) ?s' dsq_id =
          (replicate (length xs) True,
           ?s'\<lparr>queues := (queues ?s')(dsq_id \<mapsto> ?q'\<lparr>dq_entries := []\<rparr>),
               local_slot := local_slot ?s' @ xs\<rparr>)"
    using Cons.prems by (intro Cons.IH) simp_all
  then have ih: "consume_repeat (length xs) ?s' dsq_id =
          (replicate (length xs) True,
           s\<lparr>queues := (queues s)(dsq_id \<mapsto> q\<lparr>dq_entries := []\<rparr>),
             local_slot := local_slot s @ x # xs\<rparr>)"
    by simp
  show ?case unfolding length_Cons consume_repeat.simps step Let_def prod.case ih
    by (simp add: fun_upd_def)
qed

subsection \<open>The order is an invariant\<close>

lemma vtime_ordered_enqueue_vtime:
  assumes "vtime_ordered s i"
    and "enqueue_vtime s dsq_id task slice_len vtime_key flags = Inr s'"
  shows "vtime_ordered s' i"
  using assms
  by (auto simp: vtime_ordered_def enqueue_vtime_def sorted_insert_vtime
      split: if_splits option.splits ordering_mode.splits)

lemma vtime_ordered_consume:
  assumes "vtime_ordered s i"
  shows "vtime_ordered (snd (consume s dsq_id)) i"
  using assms
  by (auto simp: vtime_ordered_def consume_def
      split: if_splits option.splits ordering_mode.splits list.splits)

lemma vtime_ordered_apply_op:
  "vtime_ordered s i \<Longrightarrow> vtime_ordered (apply_op op s) i"
  by (cases op) (auto simp: vtime_ordered_consume vtime_ordered_enqueue_vtime split: sum.splits)

lemma vtime_ordered_fold:
  "vtime_ordered s i \<Longrightarrow> vtime_ordered (fold apply_op ops s) i"
  by (induction ops arbitrary: s) (simp_all add: vtime_ordered_apply_op)

subsection \<open>The order in which tasks are consumed\<close>

text \<open>
  Claim C3. Take a queue in vtime mode whose contents are in order (an empty queue, or what
  earlier enqueues left), and enqueue the tasks \<open>es\<close> to it with \<open>enqueue_vtime\<close>. Every
  enqueue succeeds, and consuming as often as the queue has entries moves a task each time.
  The tasks \<open>ys\<close> that are moved to the local run slot are the queue's tasks, in
  non-decreasing order of their keys, and the tasks of any one key \<open>k\<close> come in the order in
  which they were enqueued. The order of the keys is an invariant: it holds for every
  queue after every sequence of \<open>enqueue_vtime\<close> and \<open>consume\<close> operations.
\<close>

theorem vtime_consume_order:
  assumes "\<not> fatal s" and "queues s dsq_id = Some q" and "dq_mode q = VTIME"
    and "vtime_ordered s dsq_id"
  shows "(case enqueue_vtime_all s dsq_id es of
            Inl err \<Rightarrow> False
          | Inr s1 \<Rightarrow>
              (case consume_repeat (length (dq_entries q) + length es) s1 dsq_id of
                 (moved, s2) \<Rightarrow>
                   moved = replicate (length (dq_entries q) + length es) True \<and>
                   (let ys = drop (length (local_slot s)) (local_slot s2) in
                      local_slot s2 = local_slot s @ ys \<and>
                      mset ys = mset (dq_entries q @ es) \<and>
                      sorted (map qt_vtime ys) \<and>
                      (\<forall>k. filter (\<lambda>x. qt_vtime x = k) ys
                            = filter (\<lambda>x. qt_vtime x = k) (dq_entries q @ es)))))
         \<and> (\<forall>ops i. vtime_ordered s i \<longrightarrow> vtime_ordered (fold apply_op ops s) i)"
proof -
  let ?xs = "dq_entries q"
  let ?ys = "insert_all ?xs es"
  let ?q1 = "q\<lparr>dq_entries := ?ys\<rparr>"
  let ?s1 = "s\<lparr>queues := (queues s)(dsq_id \<mapsto> ?q1)\<rparr>"
  let ?s2 = "?s1\<lparr>queues := (queues ?s1)(dsq_id \<mapsto> ?q1\<lparr>dq_entries := []\<rparr>),
                 local_slot := local_slot ?s1 @ ?ys\<rparr>"
  have xs: "sorted (map qt_vtime ?xs)"
    using assms(2-4) by (simp add: vtime_ordered_def)
  have enq: "enqueue_vtime_all s dsq_id es = Inr ?s1"
    using assms(1-3) by (rule enqueue_vtime_all_Inr)
  have m: "mset ?ys = mset (?xs @ es)" by (simp add: mset_insert_all)
  then have "length ?ys = length (?xs @ es)" by (rule mset_eq_length)
  then have len: "length ?ys = length ?xs + length es" by simp
  have "consume_repeat (length ?ys) ?s1 dsq_id = (replicate (length ?ys) True, ?s2)"
    using assms(1) by (intro consume_repeat_all) simp_all
  then have cons: "consume_repeat (length ?xs + length es) ?s1 dsq_id
      = (replicate (length ?xs + length es) True, ?s2)"
    by (simp only: len)
  have slot: "local_slot ?s2 = local_slot s @ ?ys" by simp
  have srt: "sorted (map qt_vtime ?ys)" using xs by (rule sorted_insert_all)
  have stable: "filter (\<lambda>x. qt_vtime x = k) ?ys = filter (\<lambda>x. qt_vtime x = k) (?xs @ es)" for k
    using xs by (rule filter_insert_all)
  have batch: "(case enqueue_vtime_all s dsq_id es of
            Inl err \<Rightarrow> False
          | Inr s1 \<Rightarrow>
              (case consume_repeat (length ?xs + length es) s1 dsq_id of
                 (moved, s2) \<Rightarrow>
                   moved = replicate (length ?xs + length es) True \<and>
                   (let ys = drop (length (local_slot s)) (local_slot s2) in
                      local_slot s2 = local_slot s @ ys \<and>
                      mset ys = mset (?xs @ es) \<and>
                      sorted (map qt_vtime ys) \<and>
                      (\<forall>k. filter (\<lambda>x. qt_vtime x = k) ys
                            = filter (\<lambda>x. qt_vtime x = k) (?xs @ es)))))"
    unfolding enq sum.case cons prod.case Let_def slot
    using m srt stable by simp
  show ?thesis using batch vtime_ordered_fold by blast
qed

theorem vtime_consume_order_witness:
  "(let q0 = \<lparr>dq_mode = VTIME,
               dq_entries = [\<lparr>qt_task = 7, qt_slice = 500, qt_flags = 0, qt_vtime = 15\<rparr>]\<rparr>;
        s0 = \<lparr>queues = [5 \<mapsto> q0], local_slot = [], fatal = False\<rparr>;
        es = [\<lparr>qt_task = 1, qt_slice = 1000, qt_flags = 0, qt_vtime = 20\<rparr>,
              \<lparr>qt_task = 2, qt_slice = 1000, qt_flags = 0, qt_vtime = 10\<rparr>,
              \<lparr>qt_task = 3, qt_slice = 1000, qt_flags = 0, qt_vtime = 20\<rparr>]
    in \<not> fatal s0 \<and> queues s0 5 = Some q0 \<and> dq_mode q0 = VTIME \<and> vtime_ordered s0 5 \<and>
       (case enqueue_vtime_all s0 5 es of
          Inl err \<Rightarrow> False
        | Inr s1 \<Rightarrow>
            sorted (map qt_vtime
              (local_slot (snd (consume_repeat (length (dq_entries q0) + length es) s1 5))))) \<and>
       (case enqueue_vtime_all s0 5 es of
          Inl err \<Rightarrow> False
        | Inr s1 \<Rightarrow>
            (case consume_repeat (length (dq_entries q0) + length es) s1 5 of
               (moved, s2) \<Rightarrow>
                 moved = [True, True, True, True] \<and>
                 map qt_task (local_slot s2) = [2, 7, 1, 3])) \<and>
       vtime_ordered (fold apply_op [EnqueueVtime 5 4 1000 15 0, Consume 5] s0) 5)"
proof -
  let ?q0 = "\<lparr>dq_mode = VTIME,
               dq_entries = [\<lparr>qt_task = 7, qt_slice = 500, qt_flags = 0, qt_vtime = 15\<rparr>]\<rparr>"
  let ?s0 = "\<lparr>queues = [5 \<mapsto> ?q0], local_slot = [], fatal = False\<rparr>"
  let ?es = "[\<lparr>qt_task = 1, qt_slice = 1000, qt_flags = 0, qt_vtime = 20\<rparr>,
              \<lparr>qt_task = 2, qt_slice = 1000, qt_flags = 0, qt_vtime = 10\<rparr>,
              \<lparr>qt_task = 3, qt_slice = 1000, qt_flags = 0, qt_vtime = 20\<rparr>]"
  have h1: "\<not> fatal ?s0" by simp
  have h2: "queues ?s0 5 = Some ?q0" by simp
  have h3: "dq_mode ?q0 = VTIME" by simp
  have h4: "vtime_ordered ?s0 5" by (simp add: vtime_ordered_def)
  note order = vtime_consume_order [OF h1 h2 h3 h4, of ?es]
  have inv: "vtime_ordered (fold apply_op [EnqueueVtime 5 4 1000 15 0, Consume 5] ?s0) 5"
    using order h4 by blast
  have srt: "case enqueue_vtime_all ?s0 5 ?es of
          Inl err \<Rightarrow> False
        | Inr s1 \<Rightarrow>
            sorted (map qt_vtime
              (local_slot (snd (consume_repeat (length (dq_entries ?q0) + length ?es) s1 5))))"
    using order
    by (auto split: sum.splits prod.splits simp: Let_def
        simp del: consume_repeat.simps enqueue_vtime_all.simps)
  have run: "case enqueue_vtime_all ?s0 5 ?es of
          Inl err \<Rightarrow> False
        | Inr s1 \<Rightarrow>
            (case consume_repeat (length (dq_entries ?q0) + length ?es) s1 5 of
               (moved, s2) \<Rightarrow>
                 moved = [True, True, True, True] \<and>
                 map qt_task (local_slot s2) = [2, 7, 1, 3])"
    by (simp add: enqueue_vtime_def consume_def)
  show ?thesis unfolding Let_def using h1 h2 h3 h4 srt run inv by (intro conjI)
qed

end
